theory Spec2Isabelle
  imports Main
begin

section \<open>Values exchanged with the collaborators of RowStream\<close>

text \<open>
  A JavaScript \<open>Error\<close> object is identified with its message. The argument of
  \<open>error(err: unknown)\<close> is classified the way \<open>asError\<close> inspects it: nullish,
  an \<open>Error\<close> instance, another object (with the rendering \<open>String(err.message)\<close> when
  it has a \<open>message\<close> property, and with its own rendering \<open>String(err)\<close>), or any other
  value with its rendering \<open>String(err)\<close>.
\<close>

datatype js_error = Error string

datatype unknown =
    Nullish
  | ErrorValue js_error
  | ObjectValue "string option" string
  | OtherValue string

fun asError :: "unknown \<Rightarrow> js_error option" where
  "asError Nullish = None"
| "asError (ErrorValue e) = Some e"
| "asError (ObjectValue (Some m) s) = Some (Error m)"
| "asError (ObjectValue None s) = Some (Error s)"
| "asError (OtherValue s) = Some (Error s)"

record ColumnInfo =
  name :: string
  typeName :: string
  nullable :: bool

text \<open>
  \<open>RowStreamOptions\<close>. The fields are \<open>pauseCount\<close> and \<open>resumeCount\<close> of the source; they
  carry the prefix \<open>opt_\<close> because the stream has private fields of the same names. A
  field that is \<open>undefined\<close> or \<open>null\<close> is \<open>None\<close>. The counts are numbers of rows, taken
  as integers, so that \<open>Math.floor(pauseCount / 2)\<close> is \<open>pauseCount div 2\<close>.
\<close>

record RowStreamOptions =
  opt_pauseCount :: "int option"
  opt_resumeCount :: "int option"

datatype event = Pause | Resume | Cancel | Complete

section \<open>Promises\<close>

text \<open>
  A promise made by \<open>promise()\<close> is a number; the stream state records how each one was
  settled. An \<open>async\<close> method runs to its first \<open>await\<close> inside the call, so its effect on
  the stream is a state transformer, and the promise it returns is described by an
  outcome: fulfilled at once with a value, rejected at once with the error thrown in
  its body, following one of the stream's promises, or fulfilled with a value once one of
  the stream's promises is.
\<close>

type_synonym pid = nat

datatype settlement =
    Resolved_bool bool
  | Resolved_void
  | Resolved_ready "js_error option"
  | Rejected js_error

datatype 'a outcome =
    Returned 'a
  | Thrown js_error
  | Pending pid
  | After pid 'a

section \<open>The stream\<close>

text \<open>
  The private fields of \<open>RowStream\<close>, under their names (\<open>rs_done\<close> is \<open>#done\<close>).
  \<open>onCancel\<close> tells whether \<open>#onCancel\<close> is set, that is, whether the callback is
  registered with the canceler; \<open>clr\<close> tells whether a canceler was given. \<open>events\<close> is
  the sequence of events emitted so far, \<open>settled\<close> the settlement of each promise,
  \<open>chained\<close> the callbacks \<open>waitClose.then(() => wnx.resolve(false))\<close> as pairs \<open>(waitClose, wnx)\<close>,
  and \<open>next_pid\<close> the next unused promise.
\<close>

record 'r row_stream =
  buf :: "'r list"
  pauseCount :: "int option"
  resumeCount :: "int option"
  canPause :: bool
  row :: "'r option"
  columns :: "ColumnInfo list option"
  fieldNames :: "string list option"
  err :: "js_error option"
  ready :: bool
  rs_done :: bool
  closing :: bool
  closed :: bool
  canceling :: bool
  paused :: bool
  waitReady :: "pid option"
  waitNext :: "pid option"
  waitClose :: "pid option"
  onCancel :: bool
  clr :: bool
  events :: "event list"
  settled :: "pid \<Rightarrow> settlement option"
  chained :: "(pid \<times> pid) list"
  next_pid :: pid

text \<open>
  \<open>this.emit(...)\<close> is recorded in \<open>events\<close>. The listeners belong to the producer and
  to the owner of the connection; each call on the stream runs to its end before the
  next one starts, so a listener is taken not to call back into the stream while the
  event is being emitted.
\<close>

definition emit :: "event \<Rightarrow> 'r row_stream \<Rightarrow> 'r row_stream" where
  "emit e s = s\<lparr>events := events s @ [e]\<rparr>"

definition promise :: "'r row_stream \<Rightarrow> pid \<times> 'r row_stream" where
  "promise s =
     (next_pid s, s\<lparr>settled := (settled s)(next_pid s := None), next_pid := Suc (next_pid s)\<rparr>)"

text \<open>Settling a promise that is already settled has no effect.\<close>

definition settle :: "pid \<Rightarrow> settlement \<Rightarrow> 'r row_stream \<Rightarrow> 'r row_stream" where
  "settle p v s =
     (case settled s p of
        None \<Rightarrow> s\<lparr>settled := (settled s)(p \<mapsto> v)\<rparr>
      | Some _ \<Rightarrow> s)"

text \<open>
  \<open>wc.resolve()\<close> on the close promise, with the callbacks chained to it. The source runs
  them in the microtask that follows; no call on the stream comes between, and here they
  run at once.
\<close>

definition resolve_void :: "pid \<Rightarrow> 'r row_stream \<Rightarrow> 'r row_stream" where
  "resolve_void wc s =
     fold (\<lambda>(a, b) t. if a = wc then settle b (Resolved_bool False) t else t)
       (chained s) (settle wc Resolved_void s)"

definition validateOptions ::
  "RowStreamOptions option \<Rightarrow> js_error + (bool \<times> int option \<times> int option)" where
  "validateOptions options =
     (case options of
        None \<Rightarrow> Inr (False, None, None)
      | Some opts \<Rightarrow>
          (case opt_pauseCount opts of
             None \<Rightarrow>
               if opt_resumeCount opts \<noteq> None
               then Inl (Error ''pauseCount must be provided with resumeCount'')
               else Inr (False, None, None)
           | Some pc \<Rightarrow>
               if pc < 2 then Inl (Error ''pauseCount must more than 1'')
               else
                 (case opt_resumeCount opts of
                    None \<Rightarrow> Inr (True, Some pc, Some (pc div 2))
                  | Some rc \<Rightarrow>
                      if rc < 0 then Inl (Error ''resumeCount cannot be negative'')
                      else if rc \<ge> pc
                      then Inl (Error ''resumeCount must be less than pauseCount'')
                      else Inr (True, Some pc, Some rc))))"

text \<open>
  The field initialisers of the class, with the four fields the constructor assigns.
\<close>

definition created :: "bool \<Rightarrow> bool \<Rightarrow> int option \<Rightarrow> int option \<Rightarrow> 'r row_stream" where
  "created with_clr can pc rc =
     \<lparr> buf = [],
       pauseCount = (if can then pc else None),
       resumeCount = (if can then rc else None),
       canPause = can,
       row = None, columns = None, fieldNames = None, err = None,
       ready = False, rs_done = False, closing = False, closed = False,
       canceling = False, paused = False,
       waitReady = None, waitNext = None, waitClose = None,
       onCancel = with_clr, clr = with_clr,
       events = [], settled = (\<lambda>_. None), chained = [], next_pid = 0 \<rparr>"

text \<open>
  The constructor, after it has told a canceler from options: \<open>with_clr\<close> says whether a
  canceler was given. An error thrown by \<open>#validateOptions\<close> leaves the constructor, and
  no stream exists.
\<close>

definition RowStream_new :: "bool \<Rightarrow> RowStreamOptions option \<Rightarrow> js_error + 'r row_stream" where
  "RowStream_new with_clr options =
     (case validateOptions options of
        Inl e \<Rightarrow> Inl e
      | Inr (can, pc, rc) \<Rightarrow> Inr (created with_clr can pc rc))"

definition resolveReady :: "js_error option \<Rightarrow> 'r row_stream \<Rightarrow> 'r row_stream" where
  "resolveReady e s =
     (let s1 = s\<lparr>ready := True\<rparr>
      in case waitReady s1 of
           None \<Rightarrow> s1
         | Some wReady \<Rightarrow> settle wReady (Resolved_ready e) (s1\<lparr>waitReady := None\<rparr>))"

definition setColumns :: "ColumnInfo list \<Rightarrow> 'r row_stream \<Rightarrow> 'r row_stream" where
  "setColumns cols s =
     (let s1 = s\<lparr>columns := Some cols, fieldNames := Some (map name cols)\<rparr>
      in if \<not> ready s1 then resolveReady None s1 else s1)"

definition ensureFields :: "string \<Rightarrow> 'r row_stream \<Rightarrow> js_error + string list" where
  "ensureFields op s =
     (case fieldNames s of
        None \<Rightarrow> Inl (Error (''Cannot '' @ op @ '': Column info not yet set''))
      | Some names \<Rightarrow> Inr names)"

definition pause :: "'r row_stream \<Rightarrow> 'r row_stream" where
  "pause s = emit Pause (s\<lparr>paused := True\<rparr>)"

definition resume :: "'r row_stream \<Rightarrow> 'r row_stream" where
  "resume s = emit Resume (s\<lparr>paused := False\<rparr>)"

text \<open>
  \<open>buf.length >= this.#pauseCount!\<close> and \<open>buf.length <= this.#resumeCount!\<close>: a comparison
  with \<open>undefined\<close> is false.
\<close>

definition reaches :: "nat \<Rightarrow> int option \<Rightarrow> bool" where
  "reaches n c = (case c of None \<Rightarrow> False | Some k \<Rightarrow> int n \<ge> k)"

definition within :: "nat \<Rightarrow> int option \<Rightarrow> bool" where
  "within n c = (case c of None \<Rightarrow> False | Some k \<Rightarrow> int n \<le> k)"

definition pushRow :: "'r \<Rightarrow> 'r row_stream \<Rightarrow> 'r row_stream" where
  "pushRow r s =
     (if canceling s then s
      else
        (case (if buf s = [] then waitNext s else None) of
           Some wnx \<Rightarrow> settle wnx (Resolved_bool True) (s\<lparr>waitNext := None, row := Some r\<rparr>)
         | None \<Rightarrow>
             (let s1 = s\<lparr>buf := buf s @ [r]\<rparr>
              in if canPause s1 then
                   if \<not> paused s1 then
                     if reaches (length (buf s1)) (pauseCount s1) then pause s1 else s1
                   else s1
                 else s1)))"

text \<open>
  \<open>Row.fromArray\<close> and \<open>Row.fromObject\<close> belong to another package; they are parameters,
  and receive \<open>#fieldNames\<close> as it is.
\<close>

definition pushArray ::
  "('a \<Rightarrow> string list option \<Rightarrow> 'r) \<Rightarrow> 'a \<Rightarrow> 'r row_stream \<Rightarrow> 'r row_stream" where
  "pushArray fromArray a s = pushRow (fromArray a (fieldNames s)) s"

definition pushObject ::
  "('o \<Rightarrow> string list option \<Rightarrow> 'r) \<Rightarrow> 'o \<Rightarrow> 'r row_stream \<Rightarrow> 'r row_stream" where
  "pushObject fromObject ob s = pushRow (fromObject ob (fieldNames s)) s"

definition close :: "'r row_stream \<Rightarrow> unit outcome \<times> 'r row_stream" where
  "close s =
     (if closed s then (Returned (), s)
      else if closing s then
        ((case waitClose s of None \<Rightarrow> Returned () | Some wc \<Rightarrow> Pending wc), s)
      else
        (let s1 = s\<lparr>closing := True\<rparr>;
             s2 = (if \<not> ready s1 then resolveReady None s1 else s1);
             s3 = (if onCancel s2 then s2\<lparr>onCancel := False\<rparr> else s2);
             wnx = waitNext s3
         in if rs_done s3 then
              (let s4 = s3\<lparr>closed := True, closing := False\<rparr>
               in (Returned (),
                   case wnx of
                     None \<Rightarrow> s4
                   | Some w \<Rightarrow> settle w (Resolved_bool False) (s4\<lparr>waitNext := None\<rparr>)))
            else
              (let s4 = (if \<not> canceling s3 then emit Cancel (s3\<lparr>canceling := True\<rparr>) else s3);
                   (wc, s5) = promise s4;
                   s6 = s5\<lparr>waitClose := Some wc\<rparr>
               in (Pending wc,
                   case wnx of
                     None \<Rightarrow> s6
                   | Some w \<Rightarrow> s6\<lparr>waitNext := None, chained := chained s6 @ [(wc, w)]\<rparr>))))"

definition rs_end :: "'r row_stream \<Rightarrow> 'r row_stream" where
  "rs_end s =
     (let s1 = s\<lparr>rs_done := True\<rparr>;
          s2 = (if \<not> ready s1 then setColumns [] s1 else s1);
          s3 = emit Complete s2;
          s4 = (case waitClose s3 of
                  Some wc \<Rightarrow>
                    resolve_void wc (s3\<lparr>closed := True, closing := False, waitClose := None\<rparr>)
                | None \<Rightarrow>
                    if err s3 \<noteq> None then s3\<lparr>closed := True, closing := False\<rparr> else s3)
      in if waitNext s4 \<noteq> None \<and> buf s4 = [] then snd (close s4) else s4)"

definition cancel :: "js_error \<Rightarrow> 'r row_stream \<Rightarrow> 'r row_stream" where
  "cancel e s =
     (if canceling s then s
      else
        (let s1 = s\<lparr>canceling := True, err := Some e\<rparr>;
             s2 = (if onCancel s1 then s1\<lparr>onCancel := False\<rparr> else s1);
             s3 = emit Cancel s2;
             s4 = (if \<not> ready s3 then resolveReady (Some e) s3 else s3);
             s5 = (case waitNext s4 of
                     None \<Rightarrow> s4
                   | Some wnx \<Rightarrow> settle wnx (Rejected e) (s4\<lparr>waitNext := None\<rparr>))
         in rs_end s5))"

text \<open>\<open>asError(err) || new Error('Underlying stream encountered an error')\<close>.\<close>

definition normalized :: "unknown \<Rightarrow> js_error" where
  "normalized v =
     (case asError v of
        Some e \<Rightarrow> e
      | None \<Rightarrow> Error ''Underlying stream encountered an error'')"

definition rs_error :: "unknown \<Rightarrow> 'r row_stream \<Rightarrow> 'r row_stream" where
  "rs_error v s =
     (let s1 = s\<lparr>err := Some (normalized v)\<rparr>
      in rs_end (cancel (normalized v) s1))"

text \<open>\<open>await this.close(); return false\<close>.\<close>

definition await_then :: "unit outcome \<Rightarrow> 'a \<Rightarrow> 'a outcome" where
  "await_then w v =
     (case w of
        Returned _ \<Rightarrow> Returned v
      | Thrown e \<Rightarrow> Thrown e
      | Pending p \<Rightarrow> After p v
      | After p _ \<Rightarrow> After p v)"

definition rs_next :: "'r row_stream \<Rightarrow> bool outcome \<times> 'r row_stream" where
  "rs_next s =
     (if closed s then (Returned False, s)
      else if closing s then (await_then (fst (close s)) False, snd (close s))
      else if waitNext s \<noteq> None then
        (Thrown (Error ''Existing next() call has not yet resolved''), s)
      else
        (case buf s of
           r # rest \<Rightarrow>
             (let s1 = s\<lparr>row := Some r, buf := rest\<rparr>
              in (Returned True,
                  if canPause s1 \<and> paused s1 then
                    if within (length (buf s1)) (resumeCount s1) then resume s1 else s1
                  else s1))
         | [] \<Rightarrow>
             if rs_done s then (await_then (fst (close s)) False, snd (close s))
             else
               (let (wnx, s1) = promise s
                in (Pending wnx, s1\<lparr>waitNext := Some wnx\<rparr>))))"


definition get_err :: "'r row_stream \<Rightarrow> js_error option" where
  "get_err s = err s"

definition isClosed :: "'r row_stream \<Rightarrow> bool" where
  "isClosed s = closed s"

definition size_of :: "'r row_stream \<Rightarrow> nat" where
  "size_of s = length (buf s)"

section \<open>The controller\<close>

text \<open>
  A controller method that can throw returns the error, or nothing, beside the state it
  leaves.
\<close>

definition Controller_ready :: "'r row_stream \<Rightarrow> js_error option outcome \<times> 'r row_stream" where
  "Controller_ready s =
     (if ready s then (Returned (err s), s)
      else
        (case waitReady s of
           Some w \<Rightarrow> (Pending w, s)
         | None \<Rightarrow>
             (let (w, s1) = promise s
              in (Pending w, s1\<lparr>waitReady := Some w\<rparr>))))"

definition Controller_setColumns :: "ColumnInfo list \<Rightarrow> 'r row_stream \<Rightarrow> 'r row_stream" where
  "Controller_setColumns cols s = setColumns cols s"

definition Controller_pushRow :: "'r \<Rightarrow> 'r row_stream \<Rightarrow> js_error option \<times> 'r row_stream" where
  "Controller_pushRow r s =
     (case ensureFields ''pushRow'' s of
        Inl e \<Rightarrow> (Some e, s)
      | Inr _ \<Rightarrow> (None, pushRow r s))"

definition Controller_pushArray ::
  "('a \<Rightarrow> string list option \<Rightarrow> 'r) \<Rightarrow> 'a \<Rightarrow> 'r row_stream \<Rightarrow> js_error option \<times> 'r row_stream" where
  "Controller_pushArray fromArray a s =
     (case ensureFields ''pushArray'' s of
        Inl e \<Rightarrow> (Some e, s)
      | Inr _ \<Rightarrow> (None, pushArray fromArray a s))"

definition Controller_pushObject ::
  "('o \<Rightarrow> string list option \<Rightarrow> 'r) \<Rightarrow> 'o \<Rightarrow> 'r row_stream \<Rightarrow> js_error option \<times> 'r row_stream" where
  "Controller_pushObject fromObject ob s =
     (case ensureFields ''pushObject'' s of
        Inl e \<Rightarrow> (Some e, s)
      | Inr _ \<Rightarrow> (None, pushObject fromObject ob s))"

definition Controller_end :: "'r row_stream \<Rightarrow> 'r row_stream" where
  "Controller_end s = rs_end s"

definition Controller_error :: "unknown \<Rightarrow> 'r row_stream \<Rightarrow> 'r row_stream" where
  "Controller_error v s = rs_error v s"

text \<open>
  The canceler invokes the callback it holds, \<open>#cancel\<close> bound to the stream, only while
  the callback is registered.
\<close>

definition fire_cancel :: "js_error \<Rightarrow> 'r row_stream \<Rightarrow> 'r row_stream" where
  "fire_cancel e s = (if onCancel s then cancel e s else s)"

section \<open>Sequences of calls\<close>

text \<open>
  The calls a producer, a consumer and the canceler can make on a stream, and the state
  a sequence of them leaves. \<open>Row.fromArray\<close> and \<open>Row.fromObject\<close> are the parameters
  \<open>fa\<close> and \<open>fo\<close>.
\<close>

datatype ('r, 'a, 'o) call =
    SetColumns "ColumnInfo list"
  | PushRow 'r
  | PushArray 'a
  | PushObject 'o
  | End
  | Fail unknown
  | Ready
  | Next
  | Close
  | Canceled js_error

fun perform ::
  "('a \<Rightarrow> string list option \<Rightarrow> 'r) \<Rightarrow> ('o \<Rightarrow> string list option \<Rightarrow> 'r) \<Rightarrow>
   ('r, 'a, 'o) call \<Rightarrow> 'r row_stream \<Rightarrow> 'r row_stream" where
  "perform fa fo (SetColumns cols) s = Controller_setColumns cols s"
| "perform fa fo (PushRow r) s = snd (Controller_pushRow r s)"
| "perform fa fo (PushArray a) s = snd (Controller_pushArray fa a s)"
| "perform fa fo (PushObject ob) s = snd (Controller_pushObject fo ob s)"
| "perform fa fo End s = Controller_end s"
| "perform fa fo (Fail v) s = Controller_error v s"
| "perform fa fo Ready s = snd (Controller_ready s)"
| "perform fa fo Next s = snd (rs_next s)"
| "perform fa fo Close s = snd (close s)"
| "perform fa fo (Canceled e) s = fire_cancel e s"

fun perform_all ::
  "('a \<Rightarrow> string list option \<Rightarrow> 'r) \<Rightarrow> ('o \<Rightarrow> string list option \<Rightarrow> 'r) \<Rightarrow>
   ('r, 'a, 'o) call list \<Rightarrow> 'r row_stream \<Rightarrow> 'r row_stream" where
  "perform_all fa fo [] s = s"
| "perform_all fa fo (c # cs) s = perform_all fa fo cs (perform fa fo c s)"

fun is_push :: "('r, 'a, 'o) call \<Rightarrow> bool" where
  "is_push (PushRow r) = True"
| "is_push (PushArray a) = True"
| "is_push (PushObject ob) = True"
| "is_push c = False"

fun signals_end :: "('r, 'a, 'o) call \<Rightarrow> bool" where
  "signals_end End = True"
| "signals_end (Fail v) = True"
| "signals_end c = False"

text \<open>The states a stream can be in: those a sequence of calls leads to from a new stream.\<close>

inductive reachable ::
  "('a \<Rightarrow> string list option \<Rightarrow> 'r) \<Rightarrow> ('o \<Rightarrow> string list option \<Rightarrow> 'r) \<Rightarrow> 'r row_stream \<Rightarrow> bool"
  for fa :: "'a \<Rightarrow> string list option \<Rightarrow> 'r" and fo :: "'o \<Rightarrow> string list option \<Rightarrow> 'r" where
  new: "RowStream_new with_clr options = Inr s \<Longrightarrow> reachable fa fo s"
| call: "reachable fa fo s \<Longrightarrow> reachable fa fo (perform fa fo c s)"

section \<open>What a run shows\<close>








section \<open>Invariants\<close>

text \<open>A stream whose consumer waits on the close promise \<open>p\<close> for the producer to end.\<close>

definition awaiting_end :: "pid \<Rightarrow> 'r row_stream \<Rightarrow> bool" where
  "awaiting_end p s \<longleftrightarrow>
     closing s \<and> \<not> closed s \<and> ready s \<and> canceling s \<and> \<not> onCancel s
     \<and> waitClose s = Some p \<and> settled s p = None \<and> waitNext s = None"

text \<open>
  In every state a stream can be in, a pending pull is an unsettled promise of an open
  stream that is not cancelling, the promises in the wait slots are distinct, the close
  promise exists only while closing, an error closes the stream, and a cancelling stream
  is closing or closed. \<open>settled_pull\<close> is what remains of this between the steps of
  \<open>#cancel\<close> and the \<open>#end\<close> it calls.
\<close>

definition coherent :: "'r row_stream \<Rightarrow> bool" where
  "coherent s \<longleftrightarrow>
     (\<forall>w. waitNext s = Some w \<longrightarrow>
        settled s w = None \<and> w < next_pid s \<and> \<not> canceling s \<and> \<not> closing s \<and> \<not> closed s
        \<and> waitReady s \<noteq> Some w)
   \<and> (\<forall>w. waitReady s = Some w \<longrightarrow> w < next_pid s)
   \<and> (waitClose s \<noteq> None \<longrightarrow> closing s)
   \<and> (err s \<noteq> None \<longrightarrow> closed s)
   \<and> (canceling s \<longrightarrow> closed s \<or> closing s)"

definition settled_pull :: "'r row_stream \<Rightarrow> bool" where
  "settled_pull s \<longleftrightarrow>
     (\<forall>w. waitNext s = Some w \<longrightarrow>
        settled s w = None \<and> w < next_pid s \<and> \<not> canceling s \<and> \<not> closing s \<and> \<not> closed s
        \<and> waitReady s \<noteq> Some w)
   \<and> (\<forall>w. waitReady s = Some w \<longrightarrow> w < next_pid s)
   \<and> (waitClose s \<noteq> None \<longrightarrow> closing s)
   \<and> (err s \<noteq> None \<longrightarrow> waitNext s = None)
   \<and> (canceling s \<longrightarrow> closed s \<or> closing s \<or> err s \<noteq> None)"

text \<open>The state \<open>#cancel\<close> hands to \<open>#end\<close> when the stream was not cancelling.\<close>

definition cancel_steps :: "js_error \<Rightarrow> 'r row_stream \<Rightarrow> 'r row_stream" where
  "cancel_steps e s =
     (let s1 = s\<lparr>canceling := True, err := Some e\<rparr>;
          s2 = (if onCancel s1 then s1\<lparr>onCancel := False\<rparr> else s1);
          s3 = emit Cancel s2;
          s4 = (if \<not> ready s3 then resolveReady (Some e) s3 else s3)
      in case waitNext s4 of
           None \<Rightarrow> s4
         | Some wnx \<Rightarrow> settle wnx (Rejected e) (s4\<lparr>waitNext := None\<rparr>))"

text \<open>The definitions a run of the stream on given calls unfolds.\<close>

lemmas stream_defs =
  Controller_setColumns_def Controller_pushRow_def Controller_pushArray_def
  Controller_pushObject_def Controller_end_def Controller_error_def Controller_ready_def
  setColumns_def resolveReady_def ensureFields_def pushRow_def pushArray_def pushObject_def
  pause_def resume_def emit_def promise_def settle_def reaches_def within_def
  rs_next_def close_def rs_end_def cancel_def rs_error_def fire_cancel_def await_then_def
  resolve_void_def created_def size_of_def Let_def

section \<open>Effects of the operations, field by field\<close>

lemma settle_eq:
  "settle p v s =
     s\<lparr>settled := (case settled s p of None \<Rightarrow> (settled s)(p \<mapsto> v) | Some _ \<Rightarrow> settled s)\<rparr>"
  by (simp add: settle_def split: option.splits)

lemma resolveReady_eq:
  "resolveReady e s =
     s\<lparr>ready := True, waitReady := None,
       settled := (case waitReady s of None \<Rightarrow> settled s
                   | Some w \<Rightarrow> settled (settle w (Resolved_ready e) s))\<rparr>"
  by (cases s) (simp add: resolveReady_def settle_eq Let_def split: option.splits)

lemma setColumns_eq:
  "setColumns cols s =
     s\<lparr>columns := Some cols, fieldNames := Some (map name cols), ready := True,
       waitReady := (if ready s then waitReady s else None),
       settled := (if ready s then settled s else settled (resolveReady None s))\<rparr>"
  by (cases s) (simp add: setColumns_def resolveReady_eq settle_eq Let_def split: option.splits)
lemma resolveReady_fields [simp]:
  "events (resolveReady e s) = events s"
  "rs_done (resolveReady e s) = rs_done s"
  "buf (resolveReady e s) = buf s"
  "row (resolveReady e s) = row s"
  "err (resolveReady e s) = err s"
  "closed (resolveReady e s) = closed s"
  "closing (resolveReady e s) = closing s"
  "canceling (resolveReady e s) = canceling s"
  "waitNext (resolveReady e s) = waitNext s"
  "waitClose (resolveReady e s) = waitClose s"
  "onCancel (resolveReady e s) = onCancel s"
  "next_pid (resolveReady e s) = next_pid s"
  "chained (resolveReady e s) = chained s"
  "paused (resolveReady e s) = paused s"
  "canPause (resolveReady e s) = canPause s"
  "pauseCount (resolveReady e s) = pauseCount s"
  "resumeCount (resolveReady e s) = resumeCount s"
  "fieldNames (resolveReady e s) = fieldNames s"
  "columns (resolveReady e s) = columns s"
  by (simp_all add: resolveReady_eq)

lemma setColumns_fields [simp]:
  "events (setColumns cols s) = events s"
  "rs_done (setColumns cols s) = rs_done s"
  "buf (setColumns cols s) = buf s"
  "row (setColumns cols s) = row s"
  "err (setColumns cols s) = err s"
  "closed (setColumns cols s) = closed s"
  "closing (setColumns cols s) = closing s"
  "canceling (setColumns cols s) = canceling s"
  "waitNext (setColumns cols s) = waitNext s"
  "waitClose (setColumns cols s) = waitClose s"
  "onCancel (setColumns cols s) = onCancel s"
  "next_pid (setColumns cols s) = next_pid s"
  "chained (setColumns cols s) = chained s"
  "paused (setColumns cols s) = paused s"
  "canPause (setColumns cols s) = canPause s"
  "pauseCount (setColumns cols s) = pauseCount s"
  "resumeCount (setColumns cols s) = resumeCount s"
  by (simp_all add: setColumns_eq)

lemma settle_fields [simp]:
  "events (settle p v s) = events s"
  "rs_done (settle p v s) = rs_done s"
  "buf (settle p v s) = buf s"
  "row (settle p v s) = row s"
  "err (settle p v s) = err s"
  "closed (settle p v s) = closed s"
  "closing (settle p v s) = closing s"
  "canceling (settle p v s) = canceling s"
  "waitNext (settle p v s) = waitNext s"
  "waitClose (settle p v s) = waitClose s"
  "onCancel (settle p v s) = onCancel s"
  "next_pid (settle p v s) = next_pid s"
  "chained (settle p v s) = chained s"
  "paused (settle p v s) = paused s"
  "canPause (settle p v s) = canPause s"
  "pauseCount (settle p v s) = pauseCount s"
  "resumeCount (settle p v s) = resumeCount s"
  "fieldNames (settle p v s) = fieldNames s"
  "columns (settle p v s) = columns s"
  "ready (settle p v s) = ready s"
  "waitReady (settle p v s) = waitReady s"
  by (simp_all add: settle_eq)

lemma resolve_void_frame: "\<exists>F. resolve_void wc s = s\<lparr>settled := F\<rparr>"
proof -
  have "\<exists>F. fold (\<lambda>(a, b) t. if a = wc then settle b (Resolved_bool False) t else t) xs t
           = t\<lparr>settled := F\<rparr>" for xs and t :: "'a row_stream"
  proof (induction xs arbitrary: t)
    case Nil
    have "t = t\<lparr>settled := settled t\<rparr>" by simp
    then show ?case by (metis fold_simps(1))
  next
    case (Cons x xs)
    obtain a b where x: "x = (a, b)" by (cases x)
    show ?case
    proof (cases "a = wc")
      case True
      from Cons [of "settle b (Resolved_bool False) t"] obtain F where
        "fold (\<lambda>(a, b) t. if a = wc then settle b (Resolved_bool False) t else t) xs
           (settle b (Resolved_bool False) t) = (settle b (Resolved_bool False) t)\<lparr>settled := F\<rparr>"
        by blast
      then show ?thesis using True x by (auto simp: settle_eq)
    next
      case False
      with Cons [of t] x show ?thesis by simp
    qed
  qed
  from this [of "chained s" "settle wc Resolved_void s"] show ?thesis
    by (auto simp: resolve_void_def settle_eq)
qed

lemma resolve_void_fields [simp]:
  "events (resolve_void wc s) = events s"
  "rs_done (resolve_void wc s) = rs_done s"
  "buf (resolve_void wc s) = buf s"
  "row (resolve_void wc s) = row s"
  "err (resolve_void wc s) = err s"
  "closed (resolve_void wc s) = closed s"
  "closing (resolve_void wc s) = closing s"
  "canceling (resolve_void wc s) = canceling s"
  "waitNext (resolve_void wc s) = waitNext s"
  "waitClose (resolve_void wc s) = waitClose s"
  "onCancel (resolve_void wc s) = onCancel s"
  "next_pid (resolve_void wc s) = next_pid s"
  "chained (resolve_void wc s) = chained s"
  "paused (resolve_void wc s) = paused s"
  "canPause (resolve_void wc s) = canPause s"
  "pauseCount (resolve_void wc s) = pauseCount s"
  "resumeCount (resolve_void wc s) = resumeCount s"
  "fieldNames (resolve_void wc s) = fieldNames s"
  "columns (resolve_void wc s) = columns s"
  "ready (resolve_void wc s) = ready s"
  "waitReady (resolve_void wc s) = waitReady s"
  using resolve_void_frame [of wc s] by auto

text \<open>A settlement, once made, stays.\<close>

lemma settle_keeps: "settled s p = Some v \<Longrightarrow> settled (settle q x s) p = Some v"
  by (auto simp: settle_eq split: option.splits)

lemma chained_keeps:
  "settled t p = Some v \<Longrightarrow>
   settled (fold (\<lambda>(a, b) t. if a = wc then settle b x t else t) xs t) p = Some v"
  by (induction xs arbitrary: t) (auto simp: settle_keeps)

lemma resolve_void_keeps:
  "settled s p = Some v \<Longrightarrow> settled (resolve_void wc s) p = Some v"
  by (simp add: resolve_void_def settle_keeps chained_keeps)

lemma resolve_void_resolves:
  assumes "settled s wc = None"
  shows "settled (resolve_void wc s) wc = Some Resolved_void"
proof -
  from assms have "settled (settle wc Resolved_void s) wc = Some Resolved_void"
    by (simp add: settle_eq)
  then show ?thesis
    unfolding resolve_void_def by (rule chained_keeps)
qed

lemma close_open:
  assumes "\<not> closed s" and "\<not> closing s"
  shows "waitNext (snd (close s)) = None"
    and "waitReady (snd (close s)) = (if ready s then waitReady s else None)"
    and "next_pid (snd (close s)) = (if rs_done s then next_pid s else Suc (next_pid s))"
    and "waitClose (snd (close s)) = (if rs_done s then waitClose s else Some (next_pid s))"
    and "closing (snd (close s)) = (\<not> rs_done s)"
    and "closed (snd (close s)) = rs_done s"
    and "canceling (snd (close s)) = (canceling s \<or> \<not> rs_done s)"
    and "err (snd (close s)) = err s"
    and "ready (snd (close s))"
    and "\<not> onCancel (snd (close s))"
    and "rs_done (snd (close s)) = rs_done s"
    and "events (snd (close s)) = events s @ (if rs_done s \<or> canceling s then [] else [Cancel])"
    and "fst (close s) = (if rs_done s then Returned () else Pending (next_pid s))"
    and "\<not> rs_done s \<Longrightarrow> settled (snd (close s)) (next_pid s) = None"
  using assms
  by (simp_all add: close_def resolveReady_eq emit_def promise_def settle_eq Let_def
      split: option.splits prod.splits)

lemma close_shut:
  assumes "closed s \<or> closing s"
  shows "snd (close s) = s"
    and "fst (close s) =
          (if closed s then Returned ()
           else case waitClose s of None \<Rightarrow> Returned () | Some wc \<Rightarrow> Pending wc)"
  using assms by (auto simp: close_def)

lemma close_events_done: "rs_done s \<Longrightarrow> events (snd (close s)) = events s"
  by (cases "closed s \<or> closing s") (simp_all add: close_shut close_open)

lemma resolveReady_keeps:
  "settled s p = Some v \<Longrightarrow> settled (resolveReady e s) p = Some v"
  by (simp add: resolveReady_def Let_def settle_keeps split: option.splits)

lemma setColumns_keeps:
  "settled s p = Some v \<Longrightarrow> settled (setColumns cols s) p = Some v"
  by (simp add: setColumns_def Let_def resolveReady_keeps)

lemma close_keeps:
  "rs_done s \<Longrightarrow> settled s p = Some v \<Longrightarrow> settled (snd (close s)) p = Some v"
  by (simp add: close_def Let_def resolveReady_keeps settle_keeps split: option.splits)

text \<open>The state \<open>#end\<close> reaches before it looks for a pending pull.\<close>

lemma rs_end_stages:
  "\<exists>t. rs_end s = (if waitNext t \<noteq> None \<and> buf t = [] then snd (close t) else t)
     \<and> rs_done t
     \<and> events t = events s @ [Complete]
     \<and> waitNext t = waitNext s
     \<and> buf t = buf s
     \<and> (\<forall>p v. settled s p = Some v \<longrightarrow> settled t p = Some v)
     \<and> (\<forall>wc. waitClose s = Some wc \<and> settled s wc = None \<and> (ready s \<or> waitReady s \<noteq> Some wc)
           \<longrightarrow> settled t wc = Some Resolved_void)
     \<and> closed t = (closed s \<or> waitClose s \<noteq> None \<or> err s \<noteq> None)
     \<and> err t = err s"
proof -
  define s1 where "s1 = s\<lparr>rs_done := True\<rparr>"
  define s2 where "s2 = (if \<not> ready s1 then setColumns [] s1 else s1)"
  define s3 where "s3 = emit Complete s2"
  define t where
    "t = (case waitClose s3 of
            Some wc \<Rightarrow>
              resolve_void wc (s3\<lparr>closed := True, closing := False, waitClose := None\<rparr>)
          | None \<Rightarrow> if err s3 \<noteq> None then s3\<lparr>closed := True, closing := False\<rparr> else s3)"
  have f3: "rs_done s3" "events s3 = events s @ [Complete]" "waitNext s3 = waitNext s"
    "buf s3 = buf s" "waitClose s3 = waitClose s" "err s3 = err s" "closed s3 = closed s"
    by (simp_all add: s3_def s2_def s1_def emit_def)
  have k3: "settled s3 p = Some v" if "settled s p = Some v" for p v
    using that by (simp add: s3_def s2_def s1_def emit_def setColumns_keeps)
  have n3: "settled s3 wc = None" if "settled s wc = None" "ready s \<or> waitReady s \<noteq> Some wc" for wc
    using that
    by (auto simp: s3_def s2_def s1_def emit_def setColumns_eq resolveReady_eq settle_eq
        split: option.splits)
  have "rs_end s = (if waitNext t \<noteq> None \<and> buf t = [] then snd (close t) else t)"
    unfolding rs_end_def Let_def t_def s3_def s2_def s1_def ..
  moreover have "rs_done t" "events t = events s @ [Complete]" "waitNext t = waitNext s"
    "buf t = buf s" "closed t = (closed s \<or> waitClose s \<noteq> None \<or> err s \<noteq> None)" "err t = err s"
    using f3 by (auto simp: t_def split: option.splits)
  moreover have "settled t p = Some v" if "settled s p = Some v" for p v
    using k3 [OF that] by (simp add: t_def resolve_void_keeps split: option.splits)
  moreover have "settled t wc = Some Resolved_void"
    if "waitClose s = Some wc" "settled s wc = None" "ready s \<or> waitReady s \<noteq> Some wc" for wc
    using that n3 [of wc] f3 by (simp add: t_def resolve_void_resolves)
  ultimately show ?thesis by blast
qed

lemma rs_end_events: "events (rs_end s) = events s @ [Complete]"
proof -
  from rs_end_stages [of s] obtain t where
    "rs_end s = (if waitNext t \<noteq> None \<and> buf t = [] then snd (close t) else t)"
    and "rs_done t" and "events t = events s @ [Complete]"
    by blast
  then show ?thesis by (simp add: close_events_done)
qed

lemma rs_end_keeps:
  assumes "settled s p = Some v"
  shows "settled (rs_end s) p = Some v"
proof -
  from rs_end_stages [of s] obtain t where
    "rs_end s = (if waitNext t \<noteq> None \<and> buf t = [] then snd (close t) else t)"
    and "rs_done t" and "\<forall>p v. settled s p = Some v \<longrightarrow> settled t p = Some v"
    by blast
  with assms show ?thesis by (simp add: close_keeps)
qed

lemma rs_end_closes:
  assumes "waitClose s \<noteq> None \<or> err s \<noteq> None"
  shows "closed (rs_end s)"
proof -
  from rs_end_stages [of s] obtain t where
    e: "rs_end s = (if waitNext t \<noteq> None \<and> buf t = [] then snd (close t) else t)"
    and "closed t = (closed s \<or> waitClose s \<noteq> None \<or> err s \<noteq> None)"
    by blast
  with assms have "closed t" by simp
  with e show ?thesis by (simp add: close_shut)
qed

lemma rs_end_err: "err (rs_end s) = err s"
proof -
  from rs_end_stages [of s] obtain t where
    e: "rs_end s = (if waitNext t \<noteq> None \<and> buf t = [] then snd (close t) else t)"
    and t: "err t = err s"
    by blast
  have "err (snd (close t)) = err t"
    by (cases "closed t \<or> closing t") (simp_all add: close_shut close_open)
  with e t show ?thesis by simp
qed

section \<open>Construction\<close>

text \<open>
  C7. With a \<open>pauseCount\<close> of at least 2 and no \<open>resumeCount\<close>, construction succeeds and
  the stream's \<open>resumeCount\<close> is \<open>floor(pauseCount / 2)\<close>. Whenever \<open>pauseCount < 2\<close>,
  \<open>resumeCount < 0\<close> or \<open>resumeCount \<ge> pauseCount\<close>, the constructor throws one of the
  errors of \<open>#validateOptions\<close> and yields no stream.
\<close>

theorem construction_validates:
  fixes with_clr :: bool
  shows "(\<forall>pc\<ge>2. \<exists>s :: 'r row_stream.
            RowStream_new with_clr (Some \<lparr>opt_pauseCount = Some pc, opt_resumeCount = None\<rparr>) = Inr s
            \<and> canPause s \<and> pauseCount s = Some pc \<and> resumeCount s = Some (pc div 2))
       \<and> (\<forall>opts.
            (\<exists>pc. opt_pauseCount opts = Some pc \<and> pc < 2)
            \<or> (\<exists>rc. opt_resumeCount opts = Some rc \<and> rc < 0)
            \<or> (\<exists>pc rc. opt_pauseCount opts = Some pc \<and> opt_resumeCount opts = Some rc \<and> rc \<ge> pc)
            \<longrightarrow> (\<exists>e. (RowStream_new with_clr (Some opts) :: js_error + 'r row_stream) = Inl e
                  \<and> e \<in> {Error ''pauseCount must be provided with resumeCount'',
                          Error ''pauseCount must more than 1'',
                          Error ''resumeCount cannot be negative'',
                          Error ''resumeCount must be less than pauseCount''}))"
proof (intro conjI allI impI)
  fix pc :: int
  assume "2 \<le> pc"
  then show "\<exists>s :: 'r row_stream.
            RowStream_new with_clr (Some \<lparr>opt_pauseCount = Some pc, opt_resumeCount = None\<rparr>) = Inr s
            \<and> canPause s \<and> pauseCount s = Some pc \<and> resumeCount s = Some (pc div 2)"
    by (simp add: RowStream_new_def validateOptions_def created_def)
next
  fix opts :: RowStreamOptions
  assume "(\<exists>pc. opt_pauseCount opts = Some pc \<and> pc < 2)
            \<or> (\<exists>rc. opt_resumeCount opts = Some rc \<and> rc < 0)
            \<or> (\<exists>pc rc. opt_pauseCount opts = Some pc \<and> opt_resumeCount opts = Some rc \<and> rc \<ge> pc)"
  then show "\<exists>e. (RowStream_new with_clr (Some opts) :: js_error + 'r row_stream) = Inl e
                  \<and> e \<in> {Error ''pauseCount must be provided with resumeCount'',
                          Error ''pauseCount must more than 1'',
                          Error ''resumeCount cannot be negative'',
                          Error ''resumeCount must be less than pauseCount''}"
    by (auto simp: RowStream_new_def validateOptions_def split: option.splits)
qed

theorem construction_validates_witness:
  "(\<exists>s :: nat row_stream.
      RowStream_new False (Some \<lparr>opt_pauseCount = Some 10, opt_resumeCount = None\<rparr>) = Inr s
      \<and> resumeCount s = Some 5)
   \<and> (\<exists>e. (RowStream_new False (Some \<lparr>opt_pauseCount = Some 10, opt_resumeCount = Some 10\<rparr>)
             :: js_error + nat row_stream) = Inl e)"
proof -
  note t = construction_validates [where 'r = nat and with_clr = False]
  have "\<exists>s :: nat row_stream.
      RowStream_new False (Some \<lparr>opt_pauseCount = Some 10, opt_resumeCount = None\<rparr>) = Inr s
      \<and> canPause s \<and> pauseCount s = Some 10 \<and> resumeCount s = Some (10 div 2)"
    using t [THEN conjunct1, rule_format, of 10] by simp
  moreover have "\<exists>e. (RowStream_new False (Some \<lparr>opt_pauseCount = Some 10, opt_resumeCount = Some 10\<rparr>)
             :: js_error + nat row_stream) = Inl e \<and> e \<in> {Error ''pauseCount must be provided with resumeCount'',
                          Error ''pauseCount must more than 1'',
                          Error ''resumeCount cannot be negative'',
                          Error ''resumeCount must be less than pauseCount''}"
    using t [THEN conjunct2, rule_format, of "\<lparr>opt_pauseCount = Some 10, opt_resumeCount = Some 10\<rparr>"]
    by simp
  ultimately show ?thesis by auto
qed

text \<open>
  C10. Options with a \<open>resumeCount\<close> and no \<open>pauseCount\<close> make the constructor throw
  \<open>pauseCount must be provided with resumeCount\<close>.
\<close>

theorem resumeCount_alone_rejected:
  "(RowStream_new with_clr (Some \<lparr>opt_pauseCount = None, opt_resumeCount = Some rc\<rparr>)
      :: js_error + 'r row_stream)
   = Inl (Error ''pauseCount must be provided with resumeCount'')"
  by (simp add: RowStream_new_def validateOptions_def)

section \<open>Contract violations\<close>

text \<open>
  C8. While the column information is not set, \<open>pushRow\<close>, \<open>pushArray\<close> and \<open>pushObject\<close>
  of the controller each throw \<open>Cannot <op>: Column info not yet set\<close> and leave the
  stream as it was.
\<close>

theorem push_before_columns:
  assumes "fieldNames s = None"
  shows "Controller_pushRow r s = (Some (Error ''Cannot pushRow: Column info not yet set''), s)
       \<and> Controller_pushArray fa a s = (Some (Error ''Cannot pushArray: Column info not yet set''), s)
       \<and> Controller_pushObject fo ob s = (Some (Error ''Cannot pushObject: Column info not yet set''), s)"
  using assms
  by (simp add: Controller_pushRow_def Controller_pushArray_def Controller_pushObject_def ensureFields_def)

theorem push_before_columns_witness:
  "fieldNames (created False False None None :: nat row_stream) = None
   \<and> Controller_pushRow 1 (created False False None None :: nat row_stream)
       = (Some (Error ''Cannot pushRow: Column info not yet set''), created False False None None)"
proof -
  have h: "fieldNames (created False False None None :: nat row_stream) = None"
    by (simp add: created_def)
  from push_before_columns [OF h, THEN conjunct1, of 1] h show ?thesis by simp
qed



section \<open>Cancellation discards rows\<close>

text \<open>No call resets \<open>#canceling\<close>.\<close>

lemma pushRow_canceling: "canceling s \<Longrightarrow> pushRow r s = s"
  by (simp add: pushRow_def)

lemma close_canceling: "canceling s \<Longrightarrow> canceling (snd (close s))"
  by (simp add: close_def Let_def promise_def emit_def split: option.splits prod.splits)

lemma rs_end_canceling: "canceling s \<Longrightarrow> canceling (rs_end s)"
  by (auto simp: rs_end_def Let_def emit_def intro!: close_canceling split: option.splits)

lemma cancel_canceling: "canceling s \<Longrightarrow> canceling (cancel e s)"
  by (simp add: cancel_def)

lemma rs_error_canceling: "canceling s \<Longrightarrow> canceling (rs_error v s)"
  by (simp add: rs_error_def Let_def rs_end_canceling cancel_canceling)

lemma rs_next_canceling: "canceling s \<Longrightarrow> canceling (snd (rs_next s))"
  by (auto simp: rs_next_def Let_def promise_def resume_def emit_def close_canceling
      split: list.splits prod.splits)

lemma perform_canceling: "canceling s \<Longrightarrow> canceling (perform fa fo c s)"
  by (cases c)
    (simp_all add: Controller_setColumns_def Controller_pushRow_def Controller_pushArray_def
      Controller_pushObject_def Controller_end_def Controller_error_def Controller_ready_def
      pushArray_def pushObject_def pushRow_canceling rs_end_canceling rs_error_canceling
      rs_next_canceling close_canceling fire_cancel_def cancel_canceling promise_def
      split: sum.splits option.splits prod.splits)

lemma perform_push_canceling:
  "canceling s \<Longrightarrow> is_push c \<Longrightarrow> perform fa fo c s = s"
  by (cases c)
    (simp_all add: Controller_pushRow_def Controller_pushArray_def
      Controller_pushObject_def pushArray_def pushObject_def pushRow_canceling
      split: sum.splits)

text \<open>
  C6. Once \<open>#canceling\<close> is set, a push of any variant leaves the stream exactly as it
  was, so the buffer does not grow, and it throws nothing when the columns are set. The
  flag stays set, so in any later sequence of calls the pushes can be removed without
  changing the state the sequence leaves: no later pull can show a row pushed meanwhile.
\<close>

theorem pushes_discarded_when_canceling:
  assumes "canceling s"
  shows "snd (Controller_pushRow r s) = s
       \<and> snd (Controller_pushArray fa a s) = s
       \<and> snd (Controller_pushObject fo ob s) = s
       \<and> (fieldNames s \<noteq> None \<longrightarrow>
            fst (Controller_pushRow r s) = None
          \<and> fst (Controller_pushArray fa a s) = None
          \<and> fst (Controller_pushObject fo ob s) = None)
       \<and> perform_all fa fo cs s = perform_all fa fo (filter (\<lambda>c. \<not> is_push c) cs) s"
proof -
  have steps: "snd (Controller_pushRow r s) = s
       \<and> snd (Controller_pushArray fa a s) = s
       \<and> snd (Controller_pushObject fo ob s) = s
       \<and> (fieldNames s \<noteq> None \<longrightarrow>
            fst (Controller_pushRow r s) = None
          \<and> fst (Controller_pushArray fa a s) = None
          \<and> fst (Controller_pushObject fo ob s) = None)"
    using assms
    by (auto simp: Controller_pushRow_def Controller_pushArray_def
      Controller_pushObject_def pushArray_def pushObject_def pushRow_canceling ensureFields_def
      split: sum.splits option.splits)
  from assms
  have "perform_all fa fo cs s = perform_all fa fo (filter (\<lambda>c. \<not> is_push c) cs) s"
  proof (induction cs arbitrary: s)
    case Nil
    show ?case by simp
  next
    case (Cons c cs)
    show ?case
    proof (cases "is_push c")
      case True
      with Cons show ?thesis by (simp add: perform_push_canceling)
    next
      case False
      with Cons.IH [OF perform_canceling [OF Cons.prems]] show ?thesis by simp
    qed
  qed
  with steps show ?thesis by blast
qed

theorem pushes_discarded_when_canceling_witness:
  "canceling (snd (close (setColumns [] (created False False None None :: nat row_stream))))
   \<and> snd (Controller_pushRow 7 (snd (close (setColumns [] (created False False None None)))))
       = snd (close (setColumns [] (created False False None None :: nat row_stream)))
   \<and> fst (Controller_pushRow 7 (snd (close (setColumns [] (created False False None None :: nat row_stream)))))
       = None"
proof -
  let ?s = "snd (close (setColumns [] (created False False None None :: nat row_stream)))"
  have c: "canceling ?s"
    by (simp add: close_def setColumns_def created_def resolveReady_def emit_def promise_def
        Let_def)
  have f: "fieldNames ?s \<noteq> None"
    by (simp add: close_def setColumns_def created_def resolveReady_def emit_def promise_def
        Let_def)
  from pushes_discarded_when_canceling [OF c, where r = 7 and fa = "\<lambda>a _. a" and a = "8::nat"
      and fo = "\<lambda>ob _. ob" and ob = "9::nat" and cs = "[PushRow 7, Next]"] c f
  show ?thesis by simp
qed

section \<open>Backpressure: scenario A\<close>

text \<open>
  C1, as the code has it. A stream made with \<open>{pauseCount: 5, resumeCount: 3}\<close>, its
  columns set, receives six rows with no pull pending: the events are exactly one
  \<open>pause\<close>, and six rows are buffered. After two pulls nothing more was emitted; the
  third pull, which leaves three rows, emits the one \<open>resume\<close>; the fourth emits nothing
  and leaves two rows.
\<close>

theorem scenario_A_resume_on_third_pull:
  fixes r1 r2 r3 r4 r5 r6 :: 'r
  shows "(RowStream_new False (Some \<lparr>opt_pauseCount = Some 5, opt_resumeCount = Some 3\<rparr>)
            :: js_error + 'r row_stream) = Inr (created False True (Some 5) (Some 3))
       \<and> events (perform_all fa fo
            [SetColumns cols, PushRow r1, PushRow r2, PushRow r3, PushRow r4, PushRow r5, PushRow r6]
            (created False True (Some 5) (Some 3))) = [Pause]
       \<and> size_of (perform_all fa fo
            [SetColumns cols, PushRow r1, PushRow r2, PushRow r3, PushRow r4, PushRow r5, PushRow r6]
            (created False True (Some 5) (Some 3))) = 6
       \<and> events (perform_all fa fo
            [SetColumns cols, PushRow r1, PushRow r2, PushRow r3, PushRow r4, PushRow r5, PushRow r6,
             Next, Next]
            (created False True (Some 5) (Some 3))) = [Pause]
       \<and> events (perform_all fa fo
            [SetColumns cols, PushRow r1, PushRow r2, PushRow r3, PushRow r4, PushRow r5, PushRow r6,
             Next, Next, Next]
            (created False True (Some 5) (Some 3))) = [Pause, Resume]
       \<and> events (perform_all fa fo
            [SetColumns cols, PushRow r1, PushRow r2, PushRow r3, PushRow r4, PushRow r5, PushRow r6,
             Next, Next, Next, Next]
            (created False True (Some 5) (Some 3))) = [Pause, Resume]
       \<and> size_of (perform_all fa fo
            [SetColumns cols, PushRow r1, PushRow r2, PushRow r3, PushRow r4, PushRow r5, PushRow r6,
             Next, Next, Next, Next]
            (created False True (Some 5) (Some 3))) = 2"
  by (simp add: RowStream_new_def validateOptions_def stream_defs)

text \<open>
  C1 as stated has the \<open>resume\<close> fired on the fourth pull. On six rows it is already
  among the events after the third pull, and the fourth pull adds no event.
\<close>

theorem scenario_A_counterexample:
  "Resume \<in> set (events (perform_all (\<lambda>a _. a) (\<lambda>ob _. ob)
       [SetColumns [], PushRow 1, PushRow 2, PushRow 3, PushRow 4, PushRow 5, PushRow (6::nat),
        Next, Next, Next :: (nat, nat, nat) call]
       (created False True (Some 5) (Some 3))))
   \<and> events (perform_all (\<lambda>a _. a) (\<lambda>ob _. ob)
       [SetColumns [], PushRow 1, PushRow 2, PushRow 3, PushRow 4, PushRow 5, PushRow (6::nat),
        Next, Next, Next, Next :: (nat, nat, nat) call]
       (created False True (Some 5) (Some 3)))
     = events (perform_all (\<lambda>a _. a) (\<lambda>ob _. ob)
       [SetColumns [], PushRow 1, PushRow 2, PushRow 3, PushRow 4, PushRow 5, PushRow (6::nat),
        Next, Next, Next :: (nat, nat, nat) call]
       (created False True (Some 5) (Some 3)))"
  by (simp add: stream_defs)

section \<open>The complete event\<close>

lemma cancel_events:
  "events (cancel e s) = events s @ (if canceling s then [] else [Cancel, Complete])"
  by (simp add: cancel_def Let_def rs_end_events emit_def split: option.splits)

lemma rs_error_events:
  "events (rs_error v s) =
     events s @ (if canceling s then [Complete] else [Cancel, Complete, Complete])"
  by (simp add: rs_error_def Let_def rs_end_events cancel_events)

text \<open>
  C2. The \<open>complete\<close> event is to be emitted exactly once, also when the producer ends
  with \<open>error(err)\<close>. The code at that input: \<open>error('bork')\<close> on a new stream emits
  \<open>complete\<close> twice, because \<open>#error\<close> calls \<open>#cancel\<close>, which ends with \<open>#end\<close>, and then
  calls \<open>#end\<close> again. The other ways to end emit it once: the callback of the canceler,
  \<open>end()\<close>, and \<open>error(err)\<close> on a stream that is cancelling already, where \<open>#cancel\<close>
  returns at once.
\<close>

theorem error_emits_complete_twice:
  "events (Controller_error (OtherValue ''bork'') (created False False None None :: nat row_stream))
     = [Cancel, Complete, Complete]
   \<and> events (fire_cancel (Error ''bork'') (created True False None None :: nat row_stream))
     = [Cancel, Complete]
   \<and> events (Controller_end (created False False None None :: nat row_stream)) = [Complete]
   \<and> events (Controller_error (OtherValue ''bork'')
        (snd (close (created False False None None :: nat row_stream))))
     = [Cancel, Complete]"
proof -
  let ?s = "created False False None None :: nat row_stream"
  have o: "\<not> closed ?s" "\<not> closing ?s"
    by (simp_all add: created_def)
  have "events ?s = []" "\<not> canceling ?s" "\<not> rs_done ?s"
    by (simp_all add: created_def)
  with close_open(7,12) [OF o]
  have c: "canceling (snd (close ?s))" "events (snd (close ?s)) = [Cancel]"
    by simp_all
  have "events (Controller_error (OtherValue ''bork'') ?s) = [Cancel, Complete, Complete]"
    by (simp add: Controller_error_def rs_error_events, simp add: created_def)
  moreover
  have "events (fire_cancel (Error ''bork'') (created True False None None :: nat row_stream))
      = [Cancel, Complete]"
    by (simp add: fire_cancel_def cancel_events, simp add: created_def)
  moreover
  have "events (Controller_end ?s) = [Complete]"
    by (simp add: Controller_end_def rs_end_events, simp add: created_def)
  moreover
  from c have "events (Controller_error (OtherValue ''bork'') (snd (close ?s))) = [Cancel, Complete]"
    by (simp add: Controller_error_def rs_error_events)
  ultimately show ?thesis by blast
qed

section \<open>Close waits for the producer\<close>

lemma awaiting_end_close:
  assumes "\<not> closed s" and "\<not> closing s" and "\<not> rs_done s"
  shows "awaiting_end (next_pid s) (snd (close s))"
  using assms by (simp add: awaiting_end_def close_open)

lemma awaiting_end_perform:
  assumes "awaiting_end p s" and "\<not> signals_end c"
  shows "awaiting_end p (perform fa fo c s)"
proof (cases c)
  case (SetColumns cols)
  with assms show ?thesis
    by (simp add: awaiting_end_def Controller_setColumns_def setColumns_eq)
next
  case Next
  from assms have "closed s \<or> closing s" "\<not> closed s" by (simp_all add: awaiting_end_def)
  with Next assms show ?thesis by (simp add: rs_next_def close_shut)
next
  case Close
  from assms have "closed s \<or> closing s" by (simp add: awaiting_end_def)
  with Close assms show ?thesis by (simp add: close_shut)
qed (use assms in \<open>simp_all add: awaiting_end_def Controller_pushRow_def Controller_pushArray_def
      Controller_pushObject_def pushArray_def pushObject_def pushRow_canceling
      Controller_ready_def fire_cancel_def split: sum.splits\<close>)

lemma awaiting_end_perform_all:
  "awaiting_end p s \<Longrightarrow> \<forall>c \<in> set cs. \<not> signals_end c \<Longrightarrow> awaiting_end p (perform_all fa fo cs s)"
  by (induction cs arbitrary: s) (simp_all add: awaiting_end_perform)

lemma awaiting_end_rs_end:
  assumes "awaiting_end p s"
  shows "settled (rs_end s) p = Some Resolved_void"
proof -
  from rs_end_stages [of s] obtain t where
    "rs_end s = (if waitNext t \<noteq> None \<and> buf t = [] then snd (close t) else t)"
    and "waitNext t = waitNext s"
    and "\<forall>wc. waitClose s = Some wc \<and> settled s wc = None \<and> (ready s \<or> waitReady s \<noteq> Some wc)
           \<longrightarrow> settled t wc = Some Resolved_void"
    by blast
  with assms show ?thesis by (simp add: awaiting_end_def)
qed

lemma awaiting_end_rs_error:
  assumes "awaiting_end p s"
  shows "settled (rs_error v s) p = Some Resolved_void"
proof -
  from assms have "rs_error v s = rs_end (s\<lparr>err := Some (normalized v)\<rparr>)"
    by (simp add: rs_error_def cancel_def Let_def awaiting_end_def)
  moreover from assms have "awaiting_end p (s\<lparr>err := Some (normalized v)\<rparr>)"
    by (simp add: awaiting_end_def)
  ultimately show ?thesis by (simp add: awaiting_end_rs_end)
qed

text \<open>
  C4. \<open>close()\<close> on a stream that is neither closed nor closing and whose producer has not
  ended returns a new promise, still pending, and emits \<open>cancel\<close> within the call unless
  the stream was cancelling already. Whatever calls follow, short of the producer ending,
  the promise stays pending; \<open>end()\<close> resolves it, and so does \<open>error(err)\<close>, which runs
  \<open>#end\<close>.
\<close>

theorem close_waits_for_end:
  assumes "\<not> closed s" and "\<not> closing s" and "\<not> rs_done s"
  shows "fst (close s) = Pending (next_pid s)
       \<and> events (snd (close s)) = events s @ (if canceling s then [] else [Cancel])
       \<and> settled (snd (close s)) (next_pid s) = None
       \<and> ((\<forall>c \<in> set cs. \<not> signals_end c) \<longrightarrow>
            settled (perform_all fa fo cs (snd (close s))) (next_pid s) = None
          \<and> settled (Controller_end (perform_all fa fo cs (snd (close s)))) (next_pid s)
              = Some Resolved_void
          \<and> settled (Controller_error v (perform_all fa fo cs (snd (close s)))) (next_pid s)
              = Some Resolved_void)"
proof (intro conjI impI)
  from assms show "fst (close s) = Pending (next_pid s)"
    and "events (snd (close s)) = events s @ (if canceling s then [] else [Cancel])"
    and "settled (snd (close s)) (next_pid s) = None"
    by (simp_all add: close_open)
  assume "\<forall>c \<in> set cs. \<not> signals_end c"
  with awaiting_end_close [OF assms]
  have a: "awaiting_end (next_pid s) (perform_all fa fo cs (snd (close s)))"
    by (rule awaiting_end_perform_all)
  then show "settled (perform_all fa fo cs (snd (close s))) (next_pid s) = None"
    by (simp add: awaiting_end_def)
  from a show "settled (Controller_end (perform_all fa fo cs (snd (close s)))) (next_pid s)
      = Some Resolved_void"
    by (simp add: Controller_end_def awaiting_end_rs_end)
  from a show "settled (Controller_error v (perform_all fa fo cs (snd (close s)))) (next_pid s)
      = Some Resolved_void"
    by (simp add: Controller_error_def awaiting_end_rs_error)
qed

theorem close_waits_for_end_witness:
  "fst (close (created False False None None :: nat row_stream)) = Pending 0
   \<and> events (snd (close (created False False None None :: nat row_stream))) = [Cancel]
   \<and> settled (perform_all (\<lambda>a _. a) (\<lambda>ob _. ob) [Next, SetColumns [], PushRow 1 :: (nat, nat, nat) call]
        (snd (close (created False False None None)))) 0 = None
   \<and> settled (Controller_end (perform_all (\<lambda>a _. a) (\<lambda>ob _. ob)
        [Next, SetColumns [], PushRow 1 :: (nat, nat, nat) call]
        (snd (close (created False False None None))))) 0 = Some Resolved_void"
proof -
  let ?s = "created False False None None :: nat row_stream"
  have h: "\<not> closed ?s" "\<not> closing ?s" "\<not> rs_done ?s"
    by (simp_all add: created_def)
  have n: "\<forall>c \<in> set [Next, SetColumns [], PushRow 1 :: (nat, nat, nat) call]. \<not> signals_end c"
    by simp
  have z: "next_pid ?s = 0" "events ?s = []" "\<not> canceling ?s"
    by (simp_all add: created_def)
  from close_waits_for_end [OF h, where cs = "[Next, SetColumns [], PushRow 1 :: (nat, nat, nat) call]"
      and fa = "\<lambda>a _. a" and fo = "\<lambda>ob _. ob"] n z
  show ?thesis by simp
qed

section \<open>The invariant of reachable states\<close>

lemma coherent_imp: "coherent s \<Longrightarrow> settled_pull s"
  by (auto simp: coherent_def settled_pull_def)

lemma coherent_resolve_void:
  "coherent s \<Longrightarrow> waitNext s = None \<Longrightarrow> coherent (resolve_void wc s)"
  by (simp add: coherent_def)

lemma coherent_setColumns: "coherent s \<Longrightarrow> coherent (setColumns cols s)"
  by (auto simp: coherent_def setColumns_eq resolveReady_eq settle_eq split: option.splits)

lemma settled_pull_setColumns: "settled_pull s \<Longrightarrow> settled_pull (setColumns cols s)"
  by (auto simp: settled_pull_def setColumns_eq resolveReady_eq settle_eq split: option.splits)

lemma coherent_pushRow: "coherent s \<Longrightarrow> coherent (pushRow r s)"
  by (auto simp: coherent_def pushRow_def pause_def emit_def Let_def split: option.splits)

lemma coherent_close:
  assumes "coherent s"
  shows "coherent (snd (close s))"
proof (cases "closed s \<or> closing s")
  case True
  with assms show ?thesis by (simp add: close_shut)
next
  case False
  then have o: "\<not> closed s" "\<not> closing s" by simp_all
  from assms o show ?thesis
    unfolding coherent_def close_open [OF o] by auto
qed

lemma coherent_rs_end:
  assumes "settled_pull s"
  shows "coherent (rs_end s)"
proof -
  define s1 where "s1 = s\<lparr>rs_done := True\<rparr>"
  define s2 where "s2 = (if \<not> ready s1 then setColumns [] s1 else s1)"
  define s3 where "s3 = emit Complete s2"
  define t where
    "t = (case waitClose s3 of
            Some wc \<Rightarrow>
              resolve_void wc (s3\<lparr>closed := True, closing := False, waitClose := None\<rparr>)
          | None \<Rightarrow> if err s3 \<noteq> None then s3\<lparr>closed := True, closing := False\<rparr> else s3)"
  from assms have "settled_pull s1"
    by (simp add: settled_pull_def s1_def)
  then have "settled_pull s2"
    by (simp add: s2_def settled_pull_setColumns)
  then have p3: "settled_pull s3"
    by (simp add: s3_def settled_pull_def emit_def)
  have c4: "coherent t"
  proof (cases "waitClose s3")
    case None
    with p3 show ?thesis by (auto simp: t_def settled_pull_def coherent_def)
  next
    case (Some wc)
    with p3 have n: "waitNext s3 = None" by (auto simp: settled_pull_def)
    with p3 have "coherent (s3\<lparr>closed := True, closing := False, waitClose := None\<rparr>)"
      by (auto simp: settled_pull_def coherent_def)
    with n Some show ?thesis by (simp add: t_def coherent_resolve_void)
  qed
  have "rs_end s = (if waitNext t \<noteq> None \<and> buf t = [] then snd (close t) else t)"
    unfolding rs_end_def Let_def t_def s3_def s2_def s1_def ..
  with c4 show ?thesis by (simp add: coherent_close)
qed

lemma cancel_unfold: "\<not> canceling s \<Longrightarrow> cancel e s = rs_end (cancel_steps e s)"
  unfolding cancel_def cancel_steps_def Let_def by (rule if_not_P)

lemma settled_pull_cancel_steps:
  assumes "coherent s" and "\<not> canceling s"
  shows "settled_pull (cancel_steps e s)"
  using assms
  by (auto simp: coherent_def settled_pull_def cancel_steps_def emit_def resolveReady_eq
      settle_eq Let_def split: option.splits)

lemma coherent_cancel:
  assumes "coherent s"
  shows "coherent (cancel e s)"
proof (cases "canceling s")
  case True
  with assms show ?thesis by (simp add: cancel_def)
next
  case False
  with settled_pull_cancel_steps [OF assms False, of e]
  show ?thesis by (simp add: cancel_unfold coherent_rs_end)
qed

lemma coherent_with_err:
  "coherent s \<Longrightarrow> canceling s \<Longrightarrow> settled_pull (s\<lparr>err := x\<rparr>)"
  by (auto simp: coherent_def settled_pull_def)

lemma cancel_with_err:
  "\<not> canceling s \<Longrightarrow> cancel e (s\<lparr>err := x\<rparr>) = cancel e s"
  by (simp add: cancel_def Let_def)

lemma coherent_rs_error:
  assumes "coherent s"
  shows "coherent (rs_error v s)"
proof (cases "canceling s")
  case True
  then have "rs_error v s = rs_end (s\<lparr>err := Some (normalized v)\<rparr>)"
    by (simp add: rs_error_def cancel_def Let_def)
  with coherent_with_err [OF assms True] show ?thesis by (simp only: coherent_rs_end)
next
  case False
  then have "rs_error v s = rs_end (cancel (normalized v) s)"
    by (simp add: rs_error_def Let_def cancel_with_err)
  with coherent_cancel [OF assms] show ?thesis by (simp only: coherent_rs_end coherent_imp)
qed

lemma coherent_rs_next:
  assumes "coherent s"
  shows "coherent (snd (rs_next s))"
proof (cases "closed s \<or> closing s \<or> waitNext s \<noteq> None")
  case True
  with assms show ?thesis by (auto simp: rs_next_def close_shut)
next
  case False
  show ?thesis
  proof (cases "buf s = [] \<and> rs_done s")
    case True
    with False have "snd (rs_next s) = snd (close s)" by (simp add: rs_next_def)
    with assms show ?thesis by (simp add: coherent_close)
  next
    case False
    with \<open>\<not> (closed s \<or> closing s \<or> waitNext s \<noteq> None)\<close> assms show ?thesis
      by (auto simp: rs_next_def coherent_def promise_def resume_def emit_def Let_def
        split: list.splits)
  qed
qed

lemma coherent_ready: "coherent s \<Longrightarrow> coherent (snd (Controller_ready s))"
  by (auto simp: coherent_def Controller_ready_def promise_def Let_def split: option.splits)

lemma coherent_perform: "coherent s \<Longrightarrow> coherent (perform fa fo c s)"
  by (cases c)
    (simp_all add: Controller_setColumns_def Controller_pushRow_def Controller_pushArray_def
      Controller_pushObject_def Controller_end_def Controller_error_def
      pushArray_def pushObject_def coherent_setColumns coherent_pushRow coherent_rs_end
      coherent_imp coherent_rs_error coherent_rs_next coherent_close coherent_ready
      fire_cancel_def coherent_cancel split: sum.splits)

lemma coherent_new: "RowStream_new c opts = Inr s \<Longrightarrow> coherent s"
  by (auto simp: RowStream_new_def created_def coherent_def split: sum.splits)

lemma reachable_coherent: "reachable fa fo s \<Longrightarrow> coherent s"
  by (induction rule: reachable.induct) (simp_all add: coherent_new coherent_perform)

section \<open>A producer error while a pull is pending\<close>

lemma cancel_steps_rejects:
  assumes "waitNext s = Some p" and "settled s p = None" and "waitReady s \<noteq> Some p"
  shows "settled (cancel_steps e s) p = Some (Rejected e)"
    and "err (cancel_steps e s) = Some e"
  using assms
  by (auto simp: cancel_steps_def Let_def emit_def resolveReady_eq settle_eq split: option.splits)

text \<open>
  C3. When the producer calls \<open>error(err)\<close> while a pull is pending, the promise of that
  pull is rejected with the normalized error, the \<open>err\<close> accessor returns that error, and
  the stream is closed.
\<close>

theorem error_rejects_pending_pull:
  assumes "reachable fa fo s" and "waitNext s = Some p"
  shows "settled (Controller_error v s) p = Some (Rejected (normalized v))
       \<and> get_err (Controller_error v s) = Some (normalized v)
       \<and> isClosed (Controller_error v s)"
proof -
  from assms have c: "coherent s" by (simp add: reachable_coherent)
  with assms(2) have n: "\<not> canceling s" and u: "settled s p = None"
    and r: "waitReady s \<noteq> Some p"
    by (simp_all add: coherent_def)
  let ?t = "cancel_steps (normalized v) s"
  from n have "rs_error v s = rs_end (cancel (normalized v) s)"
    by (simp add: rs_error_def Let_def cancel_with_err)
  with n have e: "Controller_error v s = rs_end (rs_end ?t)"
    by (simp add: Controller_error_def cancel_unfold)
  from cancel_steps_rejects [OF assms(2) u r, of "normalized v"]
  have "settled ?t p = Some (Rejected (normalized v))" and "err ?t = Some (normalized v)"
    by simp_all
  then have "settled (rs_end (rs_end ?t)) p = Some (Rejected (normalized v))"
    and "err (rs_end (rs_end ?t)) = Some (normalized v)"
    and "closed (rs_end (rs_end ?t))"
    by (simp_all add: rs_end_keeps rs_end_err rs_end_closes)
  with e show ?thesis by (simp add: get_err_def isClosed_def)
qed

theorem error_rejects_pending_pull_witness:
  "reachable (\<lambda>a _. a) (\<lambda>ob _. ob)
     (perform (\<lambda>a _. a) (\<lambda>ob _. ob) (Next :: (nat, nat, nat) call) (created False False None None))
   \<and> waitNext (perform (\<lambda>a _. a) (\<lambda>ob _. ob) (Next :: (nat, nat, nat) call)
        (created False False None None)) = Some 0
   \<and> settled (Controller_error (OtherValue ''bork'')
        (perform (\<lambda>a _. a) (\<lambda>ob _. ob) (Next :: (nat, nat, nat) call)
           (created False False None None))) 0
       = Some (Rejected (Error ''bork''))
   \<and> isClosed (Controller_error (OtherValue ''bork'')
        (perform (\<lambda>a _. a) (\<lambda>ob _. ob) (Next :: (nat, nat, nat) call)
           (created False False None None)))"
proof -
  let ?fa = "\<lambda>(a::nat) (_::string list option). a"
  let ?s = "perform ?fa ?fa (Next :: (nat, nat, nat) call) (created False False None None)"
  have "RowStream_new False None = (Inr (created False False None None) :: js_error + nat row_stream)"
    by (simp add: RowStream_new_def validateOptions_def)
  then have "reachable ?fa ?fa (created False False None None :: nat row_stream)"
    by (rule reachable.new)
  then have r: "reachable ?fa ?fa ?s"
    by (rule reachable.call)
  have w: "waitNext ?s = Some 0"
    by (simp add: rs_next_def created_def promise_def)
  from error_rejects_pending_pull [OF r w, of "OtherValue ''bork''"] r w
  show ?thesis by (simp add: normalized_def)
qed

section \<open>Rows arrive in push order\<close>









end
